theory Spec2Isabelle
  imports Main
begin

section \<open>Strings and the two regular expressions\<close>

text \<open>
  A Python \<open>str\<close> is modelled as a \<open>string\<close>; a \<open>char\<close> stands for a code point
  below 256. The newline is \<open>CHR 0x0A\<close>.
\<close>

abbreviation NL :: char where
  "NL \<equiv> CHR 0x0A"

text \<open>The class \<open>\s\<close> of Python's \<open>re\<close> on a \<open>str\<close> pattern, for code points below 256.\<close>

definition is_space :: "char \<Rightarrow> bool" where
  "is_space c =
     (let n = (of_char c :: nat)
      in (9 \<le> n \<and> n \<le> 13) \<or> (28 \<le> n \<and> n \<le> 32) \<or> n = 133 \<or> n = 160)"

text \<open>Matching a literal at the current position: the rest of the input after it.\<close>

fun strip_prefix :: "string \<Rightarrow> string \<Rightarrow> string option" where
  "strip_prefix [] s = Some s"
| "strip_prefix (p # ps) [] = None"
| "strip_prefix (p # ps) (c # cs) = (if p = c then strip_prefix ps cs else None)"

text \<open>
  The common head of both patterns, \<open>(?:git-pr-chain|GPC):\<close>, tried at the current
  position: the first alternative, then the second.
\<close>

definition match_key :: "string \<Rightarrow> string option" where
  "match_key s =
     (case strip_prefix ''git-pr-chain:'' s of
        Some r \<Rightarrow> Some r
      | None \<Rightarrow> strip_prefix ''GPC:'' s)"

lemma strip_prefix_Some: "strip_prefix p s = Some r \<longleftrightarrow> s = p @ r"
  by (induction p s rule: strip_prefix.induct) auto

lemma strip_prefix_length: "strip_prefix p s = Some r \<Longrightarrow> length r \<le> length s"
  by (simp add: strip_prefix_Some)

lemma match_key_length: "match_key s = Some r \<Longrightarrow> length r < length s"
  by (auto simp: match_key_def strip_prefix_Some split: option.splits)

lemma length_after_match:
  "match_key s = Some rest \<Longrightarrow>
   length (dropWhile (\<lambda>x. x \<noteq> NL) (dropWhile is_space rest)) < length s"
proof -
  assume m: "match_key s = Some rest"
  have "length (dropWhile (\<lambda>x. x \<noteq> NL) (dropWhile is_space rest)) \<le> length rest"
    by (meson length_dropWhile_le le_trans)
  with match_key_length [OF m] show ?thesis by simp
qed

text \<open>
  \<open>re.findall(r"^(?:git-pr-chain|GPC):\s*(.*)", msg, re.MULTILINE)\<close>: the scan moves
  through the text from left to right. The flag says whether the current position
  is at the start of a line, where \<open>^\<close> matches. After the key, \<open>\s*\<close> takes all the
  white space there is (newlines too), the group \<open>(.*)\<close> takes the rest of the line,
  and the scan goes on from the end of the match.
\<close>

function findall_at :: "bool \<Rightarrow> string \<Rightarrow> string list" where
  "findall_at bol [] = []"
| "findall_at bol (c # cs) =
     (case (if bol then match_key (c # cs) else None) of
        Some rest \<Rightarrow>
          (let r1 = dropWhile is_space rest
           in takeWhile (\<lambda>x. x \<noteq> NL) r1 # findall_at False (dropWhile (\<lambda>x. x \<noteq> NL) r1))
      | None \<Rightarrow> findall_at (c = NL) cs)"
  by pat_completeness auto
termination
  by (relation "measure (\<lambda>(bol, s). length s)")
     (auto split: if_splits dest: length_after_match)

definition findall :: "string \<Rightarrow> string list" where
  "findall msg = findall_at True msg"

text \<open>
  \<open>re.search(r"(git-pr-chain|GPC):\s*STOP\>", msg)\<close>: the pattern is tried at every
  position. In Python's \<open>re\<close> the escape \<open>\>\<close> is the literal character \<open>>\<close>.
\<close>

definition match_stop_at :: "string \<Rightarrow> bool" where
  "match_stop_at s =
     (case match_key s of
        None \<Rightarrow> False
      | Some r \<Rightarrow> strip_prefix ''STOP>'' (dropWhile is_space r) \<noteq> None)"

fun search_stop :: "string \<Rightarrow> bool" where
  "search_stop [] = False"
| "search_stop (c # cs) = (match_stop_at (c # cs) \<or> search_stop cs)"

section \<open>Commits\<close>

text \<open>
  A commit holds its hash, its parent in the chain, and what \<open>git\<close> returns for it:
  the message (\<open>%B\<close>), the parents line (\<open>%P\<close>) and the short description.
\<close>

datatype commit =
  Commit (sha: string) (parent: "commit option") (commit_msg: string)
    (show_parents: string) (shortdesc: string)

datatype error =
    MultipleLines string
  | MergeCommits "string list"
  | AABA "string list"
  | NoUpstreamBranch "string list"
  | TypeError
  | MultiplePRs string "string list"
  | NoUpstreamSet

fun not_to_be_pushed :: "commit \<Rightarrow> bool" where
  "not_to_be_pushed (Commit s p m ps d) =
     (if (case p of None \<Rightarrow> False | Some q \<Rightarrow> not_to_be_pushed q) then True
      else search_stop m)"

fun gh_branch :: "commit \<Rightarrow> error + string option" where
  "gh_branch (Commit s p m ps d) =
     (if not_to_be_pushed (Commit s p m ps d) then Inr None
      else case findall m of
          [] \<Rightarrow> (case p of None \<Rightarrow> Inr None | Some q \<Rightarrow> gh_branch q)
        | [x] \<Rightarrow> Inr (Some x)
        | _ \<Rightarrow> Inl (MultipleLines s))"

section \<open>Helpers of the Python library\<close>

text \<open>\<open>s.split(sep)\<close> for a separator of one character: it never returns the empty list.\<close>

fun split_on :: "char \<Rightarrow> string \<Rightarrow> string list" where
  "split_on sep [] = [[]]"
| "split_on sep (c # cs) =
     (if c = sep then [] # split_on sep cs
      else case split_on sep cs of
          [] \<Rightarrow> [[c]]
        | l # ls \<Rightarrow> (c # l) # ls)"

text \<open>\<open>sep.join(strs)\<close>.\<close>

fun join_with :: "string \<Rightarrow> string list \<Rightarrow> string" where
  "join_with sep [] = []"
| "join_with sep [l] = l"
| "join_with sep (l # m # ls) = l @ sep @ join_with sep (m # ls)"

text \<open>\<open>s.strip()\<close>, which \<open>git(...)\<close> applies to the output of every command.\<close>

definition strip :: "string \<Rightarrow> string" where
  "strip s = rev (dropWhile is_space (rev (dropWhile is_space s)))"

text \<open>Truthiness of an optional string: \<open>None\<close> and the empty string are false.\<close>

fun truthy :: "string option \<Rightarrow> bool" where
  "truthy None = False"
| "truthy (Some s) = (s \<noteq> [])"

text \<open>
  \<open>itertools.groupby(xs, key)\<close>, read to its end: a group runs as long as the key
  stays the same.
\<close>

function groupby :: "('a \<Rightarrow> 'k) \<Rightarrow> 'a list \<Rightarrow> ('k \<times> 'a list) list" where
  "groupby key [] = []"
| "groupby key (x # xs) =
     (key x, x # takeWhile (\<lambda>y. key y = key x) xs)
       # groupby key (dropWhile (\<lambda>y. key y = key x) xs)"
  by pat_completeness auto
termination
  by (relation "measure (\<lambda>(key, xs). length xs)")
     (auto simp: le_imp_less_Suc length_dropWhile_le)

text \<open>
  \<open>collections.Counter(xs).items()\<close>: every distinct element with the number of its
  occurrences, in the order of first occurrence.
\<close>

definition counter :: "'a list \<Rightarrow> ('a \<times> nat) list" where
  "counter xs = map (\<lambda>k. (k, count_list xs k)) (rev (remdups (rev xs)))"

text \<open>
  A Python iterator is modelled by the list of the items it has yet to yield. A pass
  over it to the end returns those items and leaves the iterator empty.
\<close>

definition drain :: "'a list \<Rightarrow> 'a list \<times> 'a list" where
  "drain it = (it, [])"

section \<open>Merge commits\<close>

text \<open>
  \<open>is_merge_commit\<close> counts the lines of what \<open>git show --no-patch --format=%P\<close>
  returned.
\<close>

definition is_merge_commit :: "commit \<Rightarrow> bool" where
  "is_merge_commit c = (length (split_on NL (show_parents c)) > 1)"

text \<open>
  The environment: for the placeholder \<open>%P\<close>, \<open>git\<close> prints the hashes of the parents
  on one line, separated by single spaces, and \<open>git(...)\<close> returns the output stripped.
\<close>

definition git_format_parents :: "string list \<Rightarrow> string" where
  "git_format_parents hashes = join_with '' '' hashes @ [NL]"

definition git :: "string \<Rightarrow> string" where
  "git stdout = strip stdout"

text \<open>
  The environment: \<open>%(upstream:short)\<close> of a branch that tracks the branch
  \<open>branch\<close> of the remote \<open>remote\<close> is \<open>remote/branch\<close>.
\<close>

definition upstream_short :: "string \<Rightarrow> string \<Rightarrow> string" where
  "upstream_short remote branch = remote @ ''/'' @ branch"

section \<open>Validation\<close>

text \<open>
  The keys of the grouping are the labels; \<open>groupby\<close> computes them one commit
  after the other, and the first fatal error ends the run.
\<close>

fun with_labels :: "commit list \<Rightarrow> error + (string option \<times> commit) list" where
  "with_labels [] = Inr []"
| "with_labels (c # cs) =
     (case gh_branch c of
        Inl e \<Rightarrow> Inl e
      | Inr b \<Rightarrow>
          (case with_labels cs of
             Inl e \<Rightarrow> Inl e
           | Inr r \<Rightarrow> Inr ((b, c) # r)))"

definition group_commits :: "commit list \<Rightarrow> error + (string option \<times> commit list) list" where
  "group_commits commits =
     (case with_labels commits of
        Inl e \<Rightarrow> Inl e
      | Inr keyed \<Rightarrow> Inr (map (\<lambda>(b, g). (b, map snd g)) (groupby fst keyed)))"

definition validate_branch_commits :: "commit list \<Rightarrow> error + unit" where
  "validate_branch_commits commits =
     (let merge_commits = filter is_merge_commit commits
      in if merge_commits \<noteq> [] then Inl (MergeCommits (map shortdesc merge_commits))
      else case group_commits commits of
          Inl e \<Rightarrow> Inl e
        | Inr grouped_commits \<Rightarrow>
            (let (items, grouped_commits') = drain grouped_commits;
                 ctr = counter (map the (filter truthy (map fst items)));
                 repeated_branches = map fst (filter (\<lambda>(branch, count). count > 1) ctr)
             in if repeated_branches \<noteq> [] then Inl (AABA repeated_branches)
             else
               (let commits_without_branch =
                      concat (map snd (filter (\<lambda>(branch, cs). \<not> truthy branch)
                                              (butlast (tl grouped_commits'))))
                in if commits_without_branch \<noteq> []
                   then Inl (NoUpstreamBranch (map shortdesc commits_without_branch))
                   else Inr ())))"

section \<open>The commits of the branch\<close>

text \<open>
  The log is what \<open>git log --reverse\<close> lists between the upstream branch and
  \<open>HEAD\<close>, oldest commit first, each hash with what \<open>git show\<close> returns for it
  (message, parents line, short description). Every commit gets the commit before
  it as its parent; an empty hash is skipped.
\<close>

type_synonym log_entry = "string \<times> string \<times> string \<times> string"

fun build_commits :: "commit option \<Rightarrow> log_entry list \<Rightarrow> commit list" where
  "build_commits par [] = []"
| "build_commits par ((s, m, ps, d) # rest) =
     (if s = [] then build_commits par rest
      else (let c = Commit s par m ps d in c # build_commits (Some c) rest))"

text \<open>
  The loop that infers upstream branches reads the label of every commit but the
  first, and the label of the commit before it when that label is false.
\<close>

fun infer_upstream :: "commit \<Rightarrow> commit list \<Rightarrow> error + unit" where
  "infer_upstream prev [] = Inr ()"
| "infer_upstream prev (c # cs) =
     (case gh_branch c of
        Inl e \<Rightarrow> Inl e
      | Inr b \<Rightarrow>
          (if \<not> truthy b
           then (case gh_branch prev of
                   Inl e \<Rightarrow> Inl e
                 | Inr b' \<Rightarrow> infer_upstream c cs)
           else infer_upstream c cs))"

definition branch_commits :: "string \<Rightarrow> log_entry list \<Rightarrow> error + commit list" where
  "branch_commits upstream_branch log =
     (if upstream_branch = [] then Inl NoUpstreamSet
      else
        (let commits = build_commits None log
         in case (case commits of [] \<Rightarrow> Inr () | c # cs \<Rightarrow> infer_upstream c cs) of
              Inl e \<Rightarrow> Inl e
            | Inr u \<Rightarrow>
                (case validate_branch_commits commits of
                   Inl e \<Rightarrow> Inl e
                 | Inr u' \<Rightarrow> Inr commits)))"

section \<open>Pushing branches, creating and updating pull requests\<close>

text \<open>
  Both commands build the list \<open>grouped_commits\<close> with
  \<open>gh_branch_prefix() + branch\<close> for every group of \<open>groupby\<close>; adding \<open>None\<close> to a
  string raises \<open>TypeError\<close>.
\<close>

fun add_prefix ::
  "string \<Rightarrow> (string option \<times> commit list) list \<Rightarrow> error + (string \<times> commit list) list" where
  "add_prefix pre [] = Inr []"
| "add_prefix pre ((b, cs) # gs) =
     (case b of
        None \<Rightarrow> Inl TypeError
      | Some name \<Rightarrow>
          (case add_prefix pre gs of
             Inl e \<Rightarrow> Inl e
           | Inr r \<Rightarrow> Inr ((pre @ name, cs) # r)))"

definition grouped_commits ::
  "string \<Rightarrow> string \<Rightarrow> log_entry list \<Rightarrow> error + (string \<times> commit list) list" where
  "grouped_commits pre upstream_branch log =
     (case branch_commits upstream_branch log of
        Inl e \<Rightarrow> Inl e
      | Inr commits \<Rightarrow>
          (case group_commits commits of
             Inl e \<Rightarrow> Inl e
           | Inr gs \<Rightarrow> add_prefix pre gs))"

text \<open>
  A push sends the last commit of a group to the branch of the group's name on the
  remote. The pushes are independent of each other; with \<open>DRY_RUN\<close> they are
  printed, not run.
\<close>

datatype push = Push (push_remote: string) (push_sha: string) (push_branch: string)

definition git_upstream_remote :: "string \<Rightarrow> string" where
  "git_upstream_remote upstream_branch = hd (split_on CHR ''/'' upstream_branch)"

definition push_branches :: "string \<Rightarrow> string \<Rightarrow> log_entry list \<Rightarrow> error + push list" where
  "push_branches pre upstream_branch log =
     (case grouped_commits pre upstream_branch log of
        Inl e \<Rightarrow> Inl e
      | Inr grouped \<Rightarrow>
          Inr (map (\<lambda>(branch, cs). Push (git_upstream_remote upstream_branch) (sha (last cs)) branch)
                 grouped))"

text \<open>An open pull request as the registry reports it.\<close>

record pull =
  number :: nat
  head_ref :: string
  base_ref :: string
  url :: string

datatype decision =
    Create string string
  | UpdateBase pull string
  | NoOp

text \<open>The base of the group at index \<open>idx\<close>.\<close>

definition base_of :: "string \<Rightarrow> (string \<times> commit list) list \<Rightarrow> nat \<Rightarrow> string" where
  "base_of upstream_branch grouped idx =
     (if idx > 0 then fst (grouped ! (idx - 1))
      else last (split_on CHR ''/'' upstream_branch))"

text \<open>
  The body of the loop for one group: \<open>pulls\<close> is what the registry returns for the
  open pull requests of the branch; \<open>Create branch base\<close> stands for
  \<open>create_pull(title=branch, body="", base=base, head=branch)\<close> and
  \<open>UpdateBase pr base\<close> for \<open>pr.edit(base=base)\<close>. With \<open>DRY_RUN\<close> the decision is
  printed, not run.
\<close>

definition plan_pr :: "pull list \<Rightarrow> string \<Rightarrow> string \<Rightarrow> error + decision" where
  "plan_pr pulls branch base =
     (let prs = filter (\<lambda>pr. head_ref pr = branch) pulls
      in case prs of
          [] \<Rightarrow> Inr (Create branch base)
        | [pr] \<Rightarrow> if base_ref pr \<noteq> base then Inr (UpdateBase pr base) else Inr NoOp
        | _ \<Rightarrow> Inl (MultiplePRs branch (map url prs)))"

text \<open>
  The loop over the groups, in order: the decisions taken, and the fatal error that
  ended the loop, if any. \<open>get_pulls\<close> is the registry's answer for a branch.
\<close>

fun plan_from ::
  "(string \<Rightarrow> pull list) \<Rightarrow> string \<Rightarrow> (string \<times> commit list) list \<Rightarrow> nat list
   \<Rightarrow> decision list \<times> error option" where
  "plan_from get_pulls upstream_branch grouped [] = ([], None)"
| "plan_from get_pulls upstream_branch grouped (idx # rest) =
     (let branch = fst (grouped ! idx);
          base = base_of upstream_branch grouped idx
      in case plan_pr (get_pulls branch) branch base of
           Inl e \<Rightarrow> ([], Some e)
         | Inr d \<Rightarrow>
             (let (ds, e) = plan_from get_pulls upstream_branch grouped rest
              in (d # ds, e)))"

definition create_and_update_prs ::
  "(string \<Rightarrow> pull list) \<Rightarrow> string \<Rightarrow> string \<Rightarrow> log_entry list
   \<Rightarrow> decision list \<times> error option" where
  "create_and_update_prs get_pulls pre upstream_branch log =
     (case grouped_commits pre upstream_branch log of
        Inl e \<Rightarrow> ([], Some e)
      | Inr grouped \<Rightarrow> plan_from get_pulls upstream_branch grouped [0 ..< length grouped])"

text \<open>
  The open pull requests that the registry reports for a branch and that have the
  branch as their head: the list \<open>prs\<close> of the loop.
\<close>

abbreviation targeting :: "(string \<Rightarrow> pull list) \<Rightarrow> string \<Rightarrow> pull list" where
  "targeting get_pulls branch \<equiv> filter (\<lambda>pr. head_ref pr = branch) (get_pulls branch)"

section \<open>The lines of a message\<close>

text \<open>
  A string is blank when it holds white space only.
\<close>

definition blank :: "string \<Rightarrow> bool" where
  "blank l = list_all is_space l"

text \<open>
  The annotation lines of a message: the lines that start with one of the two
  keywords and a colon.
\<close>

definition annotation_lines :: "string \<Rightarrow> string list" where
  "annotation_lines msg = filter (\<lambda>l. match_key l \<noteq> None) (split_on NL msg)"

text \<open>
  An annotation line has a value when something other than white space follows the
  colon on that line.
\<close>

definition has_value :: "string \<Rightarrow> bool" where
  "has_value l = (case match_key l of None \<Rightarrow> False | Some v \<Rightarrow> \<not> blank v)"

text \<open>
  The scan of \<open>findall\<close> read line by line (\<open>findall_scan\<close> below proves that both
  agree): a line without a key yields nothing; a key with a value yields the value;
  a key with nothing but white space after it takes the next line that is not blank
  as its value, whatever that line is, since \<open>\s*\<close> runs over the newlines.
\<close>

function scan_lines :: "string list \<Rightarrow> string list" where
  "scan_lines [] = []"
| "scan_lines (l # ls) =
     (case match_key l of
        None \<Rightarrow> scan_lines ls
      | Some v \<Rightarrow>
          (if blank v
           then (case dropWhile blank ls of
                   [] \<Rightarrow> [[]]
                 | n # ls' \<Rightarrow> dropWhile is_space n # scan_lines ls')
           else dropWhile is_space v # scan_lines ls))"
  by pat_completeness auto
termination
proof (relation "measure length", goal_cases)
  case 1
  show ?case by simp
next
  case (2 l ls)
  show ?case by simp
next
  case (3 l ls v n ls')
  have "length (dropWhile blank ls) \<le> length ls" by (rule length_dropWhile_le)
  with 3 show ?case by simp
next
  case (4 l ls v)
  show ?case by simp
qed

section \<open>Facts about the scan of a message\<close>

lemma is_space_NL: "is_space NL"
  by (simp add: is_space_def)

lemma split_on_nonempty: "split_on sep s \<noteq> []"
  by (induction s) (auto split: list.splits)

lemma split_on_no_sep: "l \<in> set (split_on sep s) \<Longrightarrow> sep \<notin> set l"
proof (induction s arbitrary: l)
  case Nil
  then show ?case by simp
next
  case (Cons c cs)
  then show ?case
    by (cases "split_on sep cs") (auto split: if_splits)
qed

lemma join_with_Cons: "ls \<noteq> [] \<Longrightarrow> join_with sep (l # ls) = l @ sep @ join_with sep ls"
  by (cases ls) simp_all

lemma join_split: "join_with [sep] (split_on sep s) = s"
proof (induction s)
  case Nil
  show ?case by simp
next
  case (Cons c cs)
  show ?case
  proof (cases "c = sep")
    case True
    with Cons show ?thesis by (simp add: join_with_Cons split_on_nonempty)
  next
    case False
    obtain l ls where l: "split_on sep cs = l # ls"
      using split_on_nonempty [of sep cs] by (cases "split_on sep cs") auto
    with Cons False show ?thesis by (cases ls) auto
  qed
qed

lemma strip_prefix_line:
  "NL \<notin> set p \<Longrightarrow> strip_prefix p (l @ NL # r) = map_option (\<lambda>v. v @ NL # r) (strip_prefix p l)"
  by (induction p l rule: strip_prefix.induct) auto

lemma match_key_line:
  "match_key (l @ NL # r) = map_option (\<lambda>v. v @ NL # r) (match_key l)"
  by (simp add: match_key_def strip_prefix_line split: option.splits)

lemma match_key_no_NL: "match_key l = Some v \<Longrightarrow> NL \<notin> set l \<Longrightarrow> NL \<notin> set v"
  by (auto simp: match_key_def strip_prefix_Some split: option.splits)

lemma match_key_first: "match_key l = Some v \<Longrightarrow> \<exists>c cs. l = c # cs \<and> \<not> is_space c"
proof -
  assume "match_key l = Some v"
  then have "l = ''git-pr-chain:'' @ v \<or> l = ''GPC:'' @ v"
    by (auto simp: match_key_def strip_prefix_Some split: option.splits)
  moreover have "\<not> is_space CHR ''g''" "\<not> is_space CHR ''G''"
    by (simp_all add: is_space_def)
  ultimately show ?thesis by auto
qed

lemma blank_no_key: "blank l \<Longrightarrow> match_key l = None"
proof (cases "match_key l")
  case None
  then show ?thesis .
next
  case (Some v)
  assume "blank l"
  with match_key_first [OF Some] show ?thesis by (auto simp: blank_def)
qed

lemma findall_rest_of_line:
  "NL \<notin> set l \<Longrightarrow> findall_at False (l @ NL # r) = findall_at True r"
  by (induction l) auto

lemma findall_last_line:
  "NL \<notin> set l \<Longrightarrow> findall_at False l = []"
  by (induction l) auto

lemma findall_no_key:
  "match_key s = None \<Longrightarrow> findall_at True s = findall_at False s"
  by (cases s) simp_all

lemma blank_dropWhile: "blank l \<Longrightarrow> dropWhile is_space l = []"
  by (simp add: blank_def list_all_iff)

lemma not_blank_dropWhile: "\<not> blank l \<Longrightarrow> dropWhile is_space l \<noteq> []"
  by (simp add: blank_def list_all_iff)

lemma dropWhile_space_line:
  "\<not> blank l \<Longrightarrow> dropWhile is_space (l @ r) = dropWhile is_space l @ r"
  by (induction l) (auto simp: blank_def)

lemma dropWhile_space_blank:
  "blank l \<Longrightarrow> dropWhile is_space (l @ r) = dropWhile is_space r"
  by (induction l) (auto simp: blank_def)

lemma dropWhile_space_join:
  "ls \<noteq> [] \<Longrightarrow>
   dropWhile is_space (join_with [NL] ls) =
     (case dropWhile blank ls of
        [] \<Rightarrow> []
      | n # ls' \<Rightarrow> dropWhile is_space n @ (if ls' = [] then [] else NL # join_with [NL] ls'))"
proof (induction ls)
  case Nil
  then show ?case by simp
next
  case (Cons l ls)
  show ?case
  proof (cases "ls = []")
    case True
    then show ?thesis by (simp add: blank_dropWhile)
  next
    case False
    show ?thesis
    proof (cases "blank l")
      case True
      with Cons False show ?thesis
        by (simp add: join_with_Cons dropWhile_space_blank is_space_NL)
    next
      case nb: False
      with False show ?thesis
        by (simp add: join_with_Cons dropWhile_space_line)
    qed
  qed
qed

lemma line_rest:
  assumes "NL \<notin> set l"
  shows "takeWhile (\<lambda>x. x \<noteq> NL) (l @ NL # r) = l"
    and "dropWhile (\<lambda>x. x \<noteq> NL) (l @ NL # r) = NL # r"
    and "takeWhile (\<lambda>x. x \<noteq> NL) l = l"
    and "dropWhile (\<lambda>x. x \<noteq> NL) l = []"
  using assms by (induction l) auto

lemma findall_after_NL: "findall_at False (NL # r) = findall_at True r"
  by simp

lemma dropWhile_no_NL: "NL \<notin> set l \<Longrightarrow> NL \<notin> set (dropWhile P l)"
  by (meson in_mono set_dropWhileD subsetI)

lemma findall_at_match:
  "match_key s = Some rest \<Longrightarrow>
   findall_at True s =
     takeWhile (\<lambda>x. x \<noteq> NL) (dropWhile is_space rest)
       # findall_at False (dropWhile (\<lambda>x. x \<noteq> NL) (dropWhile is_space rest))"
  by (cases s) (simp_all add: match_key_def Let_def)

lemma findall_lines:
  "\<lbrakk>ls \<noteq> []; \<forall>l \<in> set ls. NL \<notin> set l\<rbrakk> \<Longrightarrow> findall_at True (join_with [NL] ls) = scan_lines ls"
proof (induction ls rule: scan_lines.induct)
  case 1
  then show ?case by simp
next
  case (2 l ls)
  from "2.prems"(2) have l: "NL \<notin> set l" and ls: "\<forall>l \<in> set ls. NL \<notin> set l" by simp_all
  show ?case
  proof (cases "match_key l")
    case None
    show ?thesis
    proof (cases "ls = []")
      case True
      with None l show ?thesis
        by (simp add: findall_no_key findall_last_line)
    next
      case False
      have "match_key (l @ NL # join_with [NL] ls) = None"
        using None by (simp add: match_key_line)
      then have "findall_at True (l @ NL # join_with [NL] ls) = findall_at True (join_with [NL] ls)"
        using l by (simp add: findall_no_key findall_rest_of_line)
      with 2(1) [OF None False ls] None False show ?thesis
        by (simp add: join_with_Cons)
    qed
  next
    case (Some v)
    have v: "NL \<notin> set v" using Some l by (rule match_key_no_NL)
    show ?thesis
    proof (cases "ls = []")
      case True
      have "NL \<notin> set (dropWhile is_space v)" using v by (rule dropWhile_no_NL)
      then have "findall_at True l = [dropWhile is_space v]"
        using Some by (simp add: findall_at_match line_rest)
      with True Some show ?thesis
        by (simp add: blank_dropWhile)
    next
      case False
      have mk: "match_key (l @ NL # join_with [NL] ls) = Some (v @ NL # join_with [NL] ls)"
        using Some by (simp add: match_key_line)
      show ?thesis
      proof (cases "blank v")
        case nb: False
        have d: "dropWhile is_space (v @ NL # join_with [NL] ls)
                 = dropWhile is_space v @ NL # join_with [NL] ls"
          using nb by (rule dropWhile_space_line)
        have nl: "NL \<notin> set (dropWhile is_space v)" using v by (rule dropWhile_no_NL)
        have "findall_at True (l @ NL # join_with [NL] ls)
              = dropWhile is_space v # findall_at True (join_with [NL] ls)"
          by (simp add: findall_at_match [OF mk] d line_rest [OF nl])
        with 2(3) [OF Some nb False ls] Some nb False show ?thesis
          by (simp add: join_with_Cons)
      next
        case b: True
        have d: "dropWhile is_space (v @ NL # join_with [NL] ls)
                 = dropWhile is_space (join_with [NL] ls)"
          using b by (simp add: dropWhile_space_blank is_space_NL)
        show ?thesis
        proof (cases "dropWhile blank ls")
          case Nil
          have e: "dropWhile is_space (join_with [NL] ls) = []"
            unfolding dropWhile_space_join [OF False] Nil by simp
          have "findall_at True (l @ NL # join_with [NL] ls) = [[]]"
            unfolding findall_at_match [OF mk] d e by simp
          then show ?thesis
            by (simp add: Some b Nil False join_with_Cons)
        next
          case (Cons n ls')
          have "set (dropWhile blank ls) \<subseteq> set ls"
            by (meson set_dropWhileD subsetI)
          with Cons ls have n: "NL \<notin> set n" and ls': "\<forall>l \<in> set ls'. NL \<notin> set l"
            by auto
          have nl: "NL \<notin> set (dropWhile is_space n)" using n by (rule dropWhile_no_NL)
          have dj: "dropWhile is_space (join_with [NL] ls)
                    = dropWhile is_space n @ (if ls' = [] then [] else NL # join_with [NL] ls')"
            unfolding dropWhile_space_join [OF False] Cons by simp
          have "findall_at True (l @ NL # join_with [NL] ls)
                = dropWhile is_space n # (if ls' = [] then [] else findall_at True (join_with [NL] ls'))"
            by (simp add: findall_at_match [OF mk] d dj line_rest [OF nl])
          moreover have "ls' \<noteq> [] \<Longrightarrow> findall_at True (join_with [NL] ls') = scan_lines ls'"
            using 2(2) [OF Some b Cons _ ls'] by simp
          ultimately show ?thesis
            by (simp add: Some b Cons False join_with_Cons)
        qed
      qed
    qed
  qed
qed

lemma findall_scan: "findall msg = scan_lines (split_on NL msg)"
proof -
  have "findall_at True (join_with [NL] (split_on NL msg)) = scan_lines (split_on NL msg)"
    by (rule findall_lines) (auto simp: split_on_nonempty dest: split_on_no_sep)
  then show ?thesis by (simp add: findall_def join_split)
qed

lemma scan_lines_Nil_iff: "scan_lines ls = [] \<longleftrightarrow> (\<forall>l \<in> set ls. match_key l = None)"
proof (induction ls rule: scan_lines.induct)
  case 1
  show ?case by simp
next
  case (2 l ls)
  show ?case
  proof (cases "match_key l")
    case None
    with 2(1) show ?thesis by simp
  next
    case (Some v)
    then show ?thesis by (simp split: list.splits)
  qed
qed

lemma has_value_not_blank: "has_value l \<Longrightarrow> \<not> blank l"
  by (auto simp: has_value_def dest: blank_no_key split: option.splits)

lemma filter_has_value_dropWhile:
  "filter has_value (dropWhile blank ls) = filter has_value ls"
  by (induction ls) (auto dest: has_value_not_blank)

lemma scan_lines_count: "length (filter has_value ls) \<le> length (scan_lines ls)"
proof (induction ls rule: scan_lines.induct)
  case 1
  show ?case by simp
next
  case (2 l ls)
  show ?case
  proof (cases "match_key l")
    case None
    with 2(1) show ?thesis by (simp add: has_value_def)
  next
    case (Some v)
    show ?thesis
    proof (cases "blank v")
      case False
      with 2(3) Some show ?thesis by (simp add: has_value_def)
    next
      case True
      then have nv: "\<not> has_value l" using Some by (simp add: has_value_def)
      show ?thesis
      proof (cases "dropWhile blank ls")
        case Nil
        have "filter has_value ls = filter has_value (dropWhile blank ls)"
          by (simp add: filter_has_value_dropWhile)
        then have "filter has_value ls = []" unfolding Nil by simp
        with nv show ?thesis by simp
      next
        case (Cons n ls')
        have "filter has_value ls = filter has_value (dropWhile blank ls)"
          by (simp add: filter_has_value_dropWhile)
        then have "filter has_value ls = filter has_value (n # ls')" unfolding Cons .
        then have "length (filter has_value ls) \<le> Suc (length (filter has_value ls'))"
          by simp
        also have "\<dots> \<le> Suc (length (scan_lines ls'))"
          using 2(2) [OF Some True Cons] by simp
        finally show ?thesis
          using nv by (simp add: Some True Cons)
      qed
    qed
  qed
qed

lemma findall_empty_iff: "findall msg = [] \<longleftrightarrow> annotation_lines msg = []"
  by (simp add: findall_scan scan_lines_Nil_iff annotation_lines_def filter_empty_conv)

lemma valued_lines_found:
  "length (filter has_value (annotation_lines msg)) \<le> length (findall msg)"
proof -
  have "filter has_value (annotation_lines msg) = filter has_value (split_on NL msg)"
    unfolding annotation_lines_def filter_filter
    by (rule filter_cong) (auto simp: has_value_def split: option.splits)
  then show ?thesis by (simp add: findall_scan scan_lines_count)
qed

lemma stopped_parent: "not_to_be_pushed q \<Longrightarrow> not_to_be_pushed (Commit s (Some q) m ps d)"
  by simp

lemma gh_branch_stopped: "not_to_be_pushed c \<Longrightarrow> gh_branch c = Inr None"
  by (cases c) simp

lemma build_commits_unannotated:
  assumes "list_all (\<lambda>(s, m, ps, d). annotation_lines m = []) log"
      and "case par of None \<Rightarrow> True | Some q \<Rightarrow> gh_branch q = Inr None"
  shows "list_all (\<lambda>c. gh_branch c = Inr None) (build_commits par log)"
  using assms
proof (induction par log rule: build_commits.induct)
  case (1 par)
  show ?case by simp
next
  case (2 par s m ps d rest)
  show ?case
  proof (cases "s = []")
    case True
    with 2 show ?thesis by simp
  next
    case False
    from "2.prems" have m: "annotation_lines m = []" by simp
    from m have f: "findall m = []" by (simp add: findall_empty_iff)
    have c: "gh_branch (Commit s par m ps d) = Inr None"
      using "2.prems"(2) by (simp add: f split: option.splits)
    have "list_all (\<lambda>c. gh_branch c = Inr None) (build_commits (Some (Commit s par m ps d)) rest)"
      using "2.IH"(2) [OF False refl] "2.prems"(1) c by simp
    with False c show ?thesis by (simp add: Let_def)
  qed
qed

section \<open>Facts about groups and validation\<close>

lemma groupby_keys: "map fst (groupby key xs) = remdups_adj (map key xs)"
proof (induction key xs rule: groupby.induct)
  case (1 key)
  show ?case by simp
next
  case (2 key x xs)
  have "remdups_adj (map key (x # xs))
        = key x # remdups_adj (dropWhile (\<lambda>y. y = key x) (map key xs))"
    by (simp add: remdups_adj_Cons')
  also have "dropWhile (\<lambda>y. y = key x) (map key xs)
        = map key (dropWhile (\<lambda>y. key y = key x) xs)"
    by (simp add: dropWhile_map comp_def)
  finally show ?case using 2 by simp
qed

lemma with_labels_Inr:
  "map gh_branch commits = map Inr labels \<Longrightarrow> with_labels commits = Inr (zip labels commits)"
proof (induction commits arbitrary: labels)
  case Nil
  then show ?case by simp
next
  case (Cons c cs)
  then obtain b bs where l: "labels = b # bs" by (cases labels) auto
  with Cons show ?case by simp
qed

lemma group_commits_keys:
  assumes "map gh_branch commits = map Inr labels"
  shows "\<exists>gs. group_commits commits = Inr gs \<and> map fst gs = remdups_adj labels"
proof -
  have len: "length labels = length commits"
    using assms by (metis length_map)
  have "map fst (map (\<lambda>(b, g). (b, map snd g)) (groupby fst (zip labels commits)))
        = map fst (groupby fst (zip labels commits))"
    by (simp add: case_prod_unfold comp_def)
  also have "\<dots> = remdups_adj (map fst (zip labels commits))"
    by (rule groupby_keys)
  also have "map fst (zip labels commits) = labels"
    using len by simp
  finally show ?thesis
    using with_labels_Inr [OF assms] by (simp add: group_commits_def)
qed

lemma repeated_set:
  "set (map fst (filter (\<lambda>(branch, count). count > 1) (counter xs)))
   = {k. 1 < count_list xs k}"
proof -
  have in_xs: "k \<in> set xs" if "1 < count_list xs k" for k
    using that by (metis count_list_0_iff not_less_zero)
  have "filter (\<lambda>(branch, count). count > 1) (counter xs)
        = map (\<lambda>k. (k, count_list xs k)) (filter (\<lambda>k. 1 < count_list xs k) (rev (remdups (rev xs))))"
    by (simp add: counter_def filter_map comp_def)
  then have "set (map fst (filter (\<lambda>(branch, count). count > 1) (counter xs)))
        = {k \<in> set xs. 1 < count_list xs k}"
    by (simp add: comp_def)
  with in_xs show ?thesis by blast
qed

lemma count_truthy:
  "count_list (map the (filter truthy ys)) b = (if b = [] then 0 else count_list ys (Some b))"
proof (induction ys)
  case Nil
  show ?case by simp
next
  case (Cons y ys)
  then show ?case by (cases y) auto
qed

lemma reappears_runs:
  assumes "i < j" "j < k" "k < length ls" "ls ! i = b" "ls ! j \<noteq> b" "ls ! k = b"
  shows "1 < count_list (remdups_adj ls) b"
proof -
  define A where "A = take j ls"
  define B where "B = drop (Suc j) ls"
  have ls: "ls = A @ (ls ! j) # B"
    using assms by (simp add: A_def B_def id_take_nth_drop)
  have "A ! i = b" using assms by (simp add: A_def)
  moreover have "i < length A" using assms by (simp add: A_def)
  ultimately have bA: "b \<in> set A" by (metis nth_mem)
  have "B ! (k - Suc j) = b" using assms by (simp add: B_def)
  moreover have "k - Suc j < length B" using assms by (simp add: B_def)
  ultimately have bB: "b \<in> set B" by (metis nth_mem)
  have "b \<in> set (remdups_adj (A @ [ls ! j]))" using bA by simp
  then have 1: "0 < count_list (remdups_adj (A @ [ls ! j])) b"
    by (metis count_list_0_iff gr0I)
  have "set (remdups_adj (ls ! j # B)) = insert (ls ! j) (set B)" by simp
  moreover have "remdups_adj (ls ! j # B) = ls ! j # tl (remdups_adj (ls ! j # B))" by simp
  ultimately have "b \<in> set (tl (remdups_adj (ls ! j # B)))"
    using bB assms(5) by (metis insert_iff list.simps(15))
  then have 2: "0 < count_list (tl (remdups_adj (ls ! j # B))) b"
    by (metis count_list_0_iff gr0I)
  have "count_list (remdups_adj ls) b
        = count_list (remdups_adj (A @ [ls ! j])) b + count_list (tl (remdups_adj (ls ! j # B))) b"
    by (subst ls, subst remdups_adj_append) simp
  with 1 2 show ?thesis by simp
qed

lemma runs_reappear:
  "1 < count_list (remdups_adj ls) b \<Longrightarrow>
   \<exists>i j k. i < j \<and> j < k \<and> k < length ls \<and> ls ! i = b \<and> ls ! j \<noteq> b \<and> ls ! k = b"
proof (induction ls rule: remdups_adj.induct)
  case 1
  then show ?case by simp
next
  case (2 x)
  then show ?case by (simp split: if_splits)
next
  case (3 x y xs)
  have shift: "\<exists>i j k. i < j \<and> j < k \<and> k < length (x # zs) \<and> (x # zs) ! i = b
                  \<and> (x # zs) ! j \<noteq> b \<and> (x # zs) ! k = b"
    if "\<exists>i j k. i < j \<and> j < k \<and> k < length zs \<and> zs ! i = b \<and> zs ! j \<noteq> b \<and> zs ! k = b"
    for zs :: "'a list"
  proof -
    from that obtain i j k where
      "i < j" "j < k" "k < length zs" "zs ! i = b" "zs ! j \<noteq> b" "zs ! k = b"
      by blast
    then have "Suc i < Suc j \<and> Suc j < Suc k \<and> Suc k < length (x # zs) \<and> (x # zs) ! Suc i = b
                  \<and> (x # zs) ! Suc j \<noteq> b \<and> (x # zs) ! Suc k = b"
      by simp
    then show ?thesis by blast
  qed
  show ?case
  proof (cases "x = y")
    case True
    with 3 have "1 < count_list (remdups_adj (x # xs)) b" by simp
    with 3 True have "\<exists>i j k. i < j \<and> j < k \<and> k < length (x # xs) \<and> (x # xs) ! i = b
                  \<and> (x # xs) ! j \<noteq> b \<and> (x # xs) ! k = b"
      by blast
    from shift [OF this] True show ?thesis by simp
  next
    case False
    show ?thesis
    proof (cases "1 < count_list (remdups_adj (y # xs)) b")
      case True
      with 3 False have "\<exists>i j k. i < j \<and> j < k \<and> k < length (y # xs) \<and> (y # xs) ! i = b
                  \<and> (y # xs) ! j \<noteq> b \<and> (y # xs) ! k = b"
        by blast
      from shift [OF this] show ?thesis .
    next
      case few: False
      with 3(3) False have xb: "x = b" and pos: "0 < count_list (remdups_adj (y # xs)) b"
        by (auto split: if_splits)
      from pos have "b \<in> set (y # xs)"
        by (metis count_list_0_iff less_numeral_extra(3) remdups_adj_set)
      then obtain n where n: "n < length (y # xs)" "(y # xs) ! n = b"
        by (metis in_set_conv_nth)
      with False xb have "n \<noteq> 0" by (metis nth_Cons_0)
      then obtain m where m: "n = Suc m" by (cases n) auto
      have "(0::nat) < 1 \<and> 1 < Suc n \<and> Suc n < length (x # y # xs) \<and> (x # y # xs) ! 0 = b
            \<and> (x # y # xs) ! 1 \<noteq> b \<and> (x # y # xs) ! Suc n = b"
        using n m xb False by auto
      then show ?thesis by blast
    qed
  qed
qed

lemma validate_result:
  assumes nomerge: "\<forall>c \<in> set commits. \<not> is_merge_commit c"
      and labels: "map gh_branch commits = map Inr labels"
  shows "\<exists>bs. set bs = {b. b \<noteq> [] \<and> 1 < count_list (remdups_adj labels) (Some b)}
           \<and> validate_branch_commits commits = (if bs \<noteq> [] then Inl (AABA bs) else Inr ())"
proof -
  from group_commits_keys [OF labels] obtain gs where
    gs: "group_commits commits = Inr gs" "map fst gs = remdups_adj labels"
    by blast
  define bs where
    "bs = map fst (filter (\<lambda>(branch, count). count > 1)
                     (counter (map the (filter truthy (map fst gs)))))"
  have "set bs = {b. 1 < count_list (map the (filter truthy (remdups_adj labels))) b}"
    unfolding bs_def gs(2) by (rule repeated_set)
  then have set_bs: "set bs = {b. b \<noteq> [] \<and> 1 < count_list (remdups_adj labels) (Some b)}"
    by (auto simp: count_truthy split: if_splits)
  have nm: "filter is_merge_commit commits = []"
    using nomerge by (simp add: filter_empty_conv)
  have "validate_branch_commits commits = (if bs \<noteq> [] then Inl (AABA bs) else Inr ())"
    by (simp add: validate_branch_commits_def nm gs(1) drain_def bs_def Let_def)
  with set_bs show ?thesis by blast
qed

section \<open>Facts about merge detection, the stop marker, prefixes and bases\<close>

lemma split_on_single: "sep \<notin> set s \<Longrightarrow> split_on sep s = [s]"
  by (induction s) auto

lemma split_on_append_last:
  "last (split_on sep (a @ sep # b)) = last (split_on sep b)"
proof (induction a)
  case Nil
  have "split_on sep b \<noteq> []" by (induction b) (auto split: list.splits)
  then show ?case by simp
next
  case (Cons c a)
  have ne: "split_on sep (a @ sep # b) \<noteq> []"
    by (induction a) (auto split: list.splits)
  then obtain l ls where l: "split_on sep (a @ sep # b) = l # ls"
    by (cases "split_on sep (a @ sep # b)") auto
  have tail: "ls \<noteq> []"
  proof -
    have "length (split_on sep (a @ sep # b)) > 1"
    proof (induction a)
      case Nil
      have "split_on sep b \<noteq> []" by (induction b) (auto split: list.splits)
      then show ?case by simp
    next
      case (Cons x xs)
      then show ?case by (auto split: list.splits)
    qed
    with l show ?thesis by auto
  qed
  show ?case
  proof (cases "c = sep")
    case True
    with Cons ne show ?thesis by simp
  next
    case False
    with Cons l tail show ?thesis by simp
  qed
qed

lemma base_of_later: "0 < idx \<Longrightarrow> base_of upstream_branch grouped idx = fst (grouped ! (idx - 1))"
  by (simp add: base_of_def)

lemma base_of_first:
  "CHR ''/'' \<notin> set branch \<Longrightarrow> base_of (upstream_short remote branch) grouped 0 = branch"
  by (simp add: base_of_def upstream_short_def split_on_append_last split_on_single)

lemma match_stop_at_gt: "match_stop_at s \<Longrightarrow> CHR ''>'' \<in> set s"
proof -
  assume "match_stop_at s"
  then obtain r x where r: "match_key s = Some r"
      and x: "dropWhile is_space r = ''STOP>'' @ x"
    by (auto simp: match_stop_at_def strip_prefix_Some split: option.splits)
  have "set (dropWhile is_space r) \<subseteq> set r"
    by (meson set_dropWhileD subsetI)
  with x have "CHR ''>'' \<in> set r" by auto
  moreover from r have "set r \<subseteq> set s"
    by (auto simp: match_key_def strip_prefix_Some split: option.splits)
  ultimately show ?thesis by blast
qed

lemma search_stop_gt: "search_stop m \<Longrightarrow> CHR ''>'' \<in> set m"
  by (induction m) (auto dest: match_stop_at_gt)

lemma gh_branch_error: "gh_branch c = Inl e \<Longrightarrow> \<exists>s. e = MultipleLines s"
proof (induction c rule: gh_branch.induct)
  case (1 s p m ps d)
  show ?case
  proof (cases "not_to_be_pushed (Commit s p m ps d)")
    case True
    from gh_branch_stopped [OF True] "1.prems" show ?thesis by simp
  next
    case False
    note nb = False
    show ?thesis
    proof (cases "findall m")
      case Nil
      show ?thesis
      proof (cases p)
        case None
        with "1.prems" nb Nil show ?thesis by simp
      next
        case (Some q)
        with "1.prems" nb Nil have "gh_branch q = Inl e" by simp
        with "1.IH" [OF nb Nil Some] show ?thesis .
      qed
    next
      case (Cons x xs)
      with "1.prems" nb show ?thesis by (cases xs) auto
    qed
  qed
qed

lemma with_labels_error: "with_labels cs = Inl e \<Longrightarrow> \<exists>s. e = MultipleLines s"
proof (induction cs)
  case Nil
  then show ?case by simp
next
  case (Cons c cs)
  then show ?case
    by (auto split: sum.splits dest: gh_branch_error)
qed

lemma validate_no_unlabelled_error:
  "validate_branch_commits commits \<noteq> Inl (NoUpstreamBranch ds)"
proof (cases "group_commits commits")
  case (Inl e)
  then have "with_labels commits = Inl e"
    by (simp add: group_commits_def split: sum.splits)
  then obtain s where "e = MultipleLines s"
    using with_labels_error by blast
  with Inl show ?thesis
    by (simp add: validate_branch_commits_def Let_def)
next
  case (Inr gs)
  then show ?thesis
    by (simp add: validate_branch_commits_def drain_def Let_def)
qed

lemma add_prefix_None: "(None, cs) \<in> set gs \<Longrightarrow> add_prefix pre gs = Inl TypeError"
proof (induction pre gs rule: add_prefix.induct)
  case (1 pre)
  then show ?case by simp
next
  case (2 pre b cs' gs)
  show ?case
  proof (cases b)
    case None
    then show ?thesis by simp
  next
    case (Some name)
    with 2 have "add_prefix pre gs = Inl TypeError" by auto
    with Some show ?thesis by simp
  qed
qed

lemma strip_line: "NL \<notin> set t \<Longrightarrow> NL \<notin> set (strip (t @ [NL]))"
proof -
  assume t: "NL \<notin> set t"
  have nl: "is_space NL" by (simp add: is_space_def)
  show ?thesis
  proof (cases "list_all is_space t")
    case True
    then have "dropWhile is_space (t @ [NL]) = []"
      using nl by (simp add: list_all_iff)
    then show ?thesis by (simp add: strip_def)
  next
    case False
    then obtain x where "x \<in> set t" "\<not> is_space x"
      by (auto simp: list_all_iff)
    then have "dropWhile is_space (t @ [NL]) = dropWhile is_space t @ [NL]"
      by (rule dropWhile_append1)
    then have "strip (t @ [NL]) = rev (dropWhile is_space (rev (dropWhile is_space t)))"
      using nl by (simp add: strip_def)
    moreover have "set (dropWhile is_space (rev (dropWhile is_space t))) \<subseteq> set t"
      by (metis set_dropWhileD set_rev subsetI)
    ultimately show ?thesis using t by auto
  qed
qed

lemma join_with_no_NL:
  "\<forall>h \<in> set hs. NL \<notin> set h \<Longrightarrow> NL \<notin> set (join_with '' '' hs)"
  by (induction "'' ''" hs rule: join_with.induct) auto

lemma git_parents_one_line:
  "\<forall>h \<in> set hashes. NL \<notin> set h \<Longrightarrow>
   \<not> is_merge_commit (Commit s p m (git (git_format_parents hashes)) d)"
proof -
  assume "\<forall>h \<in> set hashes. NL \<notin> set h"
  then have "NL \<notin> set (join_with '' '' hashes)" by (rule join_with_no_NL)
  then have "NL \<notin> set (git (git_format_parents hashes))"
    unfolding git_def git_format_parents_def by (rule strip_line)
  then show ?thesis
    by (simp add: is_merge_commit_def split_on_single)
qed

section \<open>Facts about the loop over the groups\<close>

lemma plan_pr_Inr:
  assumes "plan_pr pulls branch base = Inr d"
  shows "(filter (\<lambda>pr. head_ref pr = branch) pulls = [] \<and> d = Create branch base)
       \<or> (\<exists>pr. filter (\<lambda>pr. head_ref pr = branch) pulls = [pr] \<and> base_ref pr \<noteq> base
               \<and> d = UpdateBase pr base)
       \<or> (\<exists>pr. filter (\<lambda>pr. head_ref pr = branch) pulls = [pr] \<and> base_ref pr = base
               \<and> d = NoOp)"
proof (cases "filter (\<lambda>pr. head_ref pr = branch) pulls")
  case Nil
  with assms show ?thesis by (simp add: plan_pr_def)
next
  case (Cons q qs)
  note outer = Cons
  show ?thesis
  proof (cases qs)
    case Nil
    with outer assms show ?thesis by (auto simp: plan_pr_def split: if_splits)
  next
    case (Cons q' qs')
    with outer assms show ?thesis by (simp add: plan_pr_def)
  qed
qed

lemma plan_pr_Inl:
  assumes "plan_pr pulls branch base = Inl err"
  shows "1 < length (filter (\<lambda>pr. head_ref pr = branch) pulls)
       \<and> err = MultiplePRs branch (map url (filter (\<lambda>pr. head_ref pr = branch) pulls))"
proof (cases "filter (\<lambda>pr. head_ref pr = branch) pulls")
  case Nil
  with assms show ?thesis by (simp add: plan_pr_def)
next
  case (Cons q qs)
  note outer = Cons
  show ?thesis
  proof (cases qs)
    case Nil
    with outer assms show ?thesis by (simp add: plan_pr_def split: if_splits)
  next
    case (Cons q' qs')
    with outer assms show ?thesis by (auto simp: plan_pr_def)
  qed
qed

lemma plan_from_steps:
  assumes "plan_from get_pulls up grouped idxs = (ds, e)"
  shows "length ds \<le> length idxs
       \<and> (\<forall>k < length ds.
             plan_pr (get_pulls (fst (grouped ! (idxs ! k)))) (fst (grouped ! (idxs ! k)))
               (base_of up grouped (idxs ! k)) = Inr (ds ! k))
       \<and> (e = None \<longrightarrow> length ds = length idxs)
       \<and> (\<forall>err. e = Some err \<longrightarrow>
             length ds < length idxs
             \<and> plan_pr (get_pulls (fst (grouped ! (idxs ! length ds))))
                 (fst (grouped ! (idxs ! length ds)))
                 (base_of up grouped (idxs ! length ds)) = Inl err)"
  using assms
proof (induction idxs arbitrary: ds e)
  case Nil
  then show ?case by simp
next
  case (Cons idx rest)
  let ?step = "plan_pr (get_pulls (fst (grouped ! idx))) (fst (grouped ! idx))
                 (base_of up grouped idx)"
  show ?case
  proof (cases ?step)
    case (Inl err)
    with Cons.prems have "ds = []" "e = Some err"
      by (simp_all add: Let_def)
    with Inl show ?thesis by simp
  next
    case (Inr d)
    obtain ds' e' where rest: "plan_from get_pulls up grouped rest = (ds', e')"
      by (cases "plan_from get_pulls up grouped rest")
    with Cons.prems Inr have ds: "ds = d # ds'" and e: "e = e'"
      by (simp_all add: Let_def)
    note ih = Cons.IH [OF rest]
    have 1: "length ds \<le> length (idx # rest)"
      using ih ds by simp
    have 2: "\<forall>k < length ds.
             plan_pr (get_pulls (fst (grouped ! ((idx # rest) ! k))))
               (fst (grouped ! ((idx # rest) ! k)))
               (base_of up grouped ((idx # rest) ! k)) = Inr (ds ! k)"
    proof (intro allI impI)
      fix k
      assume k: "k < length ds"
      show "plan_pr (get_pulls (fst (grouped ! ((idx # rest) ! k))))
               (fst (grouped ! ((idx # rest) ! k)))
               (base_of up grouped ((idx # rest) ! k)) = Inr (ds ! k)"
      proof (cases k)
        case 0
        with Inr ds show ?thesis by simp
      next
        case (Suc j)
        with k ds have "j < length ds'" by simp
        with ih have "plan_pr (get_pulls (fst (grouped ! (rest ! j)))) (fst (grouped ! (rest ! j)))
               (base_of up grouped (rest ! j)) = Inr (ds' ! j)"
          by blast
        with Suc ds show ?thesis by simp
      qed
    qed
    have 3: "e = None \<longrightarrow> length ds = length (idx # rest)"
      using ih ds e by simp
    have 4: "\<forall>err. e = Some err \<longrightarrow>
             length ds < length (idx # rest)
             \<and> plan_pr (get_pulls (fst (grouped ! ((idx # rest) ! length ds))))
                 (fst (grouped ! ((idx # rest) ! length ds)))
                 (base_of up grouped ((idx # rest) ! length ds)) = Inl err"
      using ih ds e by simp
    from 1 2 3 4 show ?thesis by (intro conjI)
  qed
qed

section \<open>Resolution of labels\<close>

text \<open>
  Claim C1, as the program has it. A commit with no annotation line in its message,
  and with no text in its message that the search for the stop marker finds,
  resolves to what its parent resolves to, and to no label when it has no parent. A
  commit with no annotation line and no parent resolves to no label. In a log with
  no annotation line at all every commit resolves to no label, which is what the
  first commit resolves to.
\<close>

theorem label_inherited:
  "(annotation_lines (commit_msg c) = [] \<and> \<not> search_stop (commit_msg c)
      \<longrightarrow> gh_branch c = (case parent c of None \<Rightarrow> Inr None | Some p \<Rightarrow> gh_branch p))
   \<and> (annotation_lines (commit_msg c) = [] \<and> parent c = None \<longrightarrow> gh_branch c = Inr None)
   \<and> (list_all (\<lambda>(s, m, ps, d). annotation_lines m = []) log
      \<longrightarrow> list_all (\<lambda>c. gh_branch c = Inr None) (build_commits None log))"
proof (intro conjI impI)
  assume a: "annotation_lines (commit_msg c) = [] \<and> \<not> search_stop (commit_msg c)"
  obtain s p m ps d where c: "c = Commit s p m ps d" by (cases c)
  from a c have f: "findall m = []" by (simp add: findall_empty_iff)
  show "gh_branch c = (case parent c of None \<Rightarrow> Inr None | Some p \<Rightarrow> gh_branch p)"
  proof (cases p)
    case None
    with a c show ?thesis by (simp add: f)
  next
    case (Some q)
    show ?thesis
    proof (cases "not_to_be_pushed q")
      case True
      from gh_branch_stopped [OF True] gh_branch_stopped [OF stopped_parent [OF True]]
      show ?thesis using c Some by simp
    next
      case False
      with a c Some show ?thesis by (simp add: f)
    qed
  qed
next
  assume a: "annotation_lines (commit_msg c) = [] \<and> parent c = None"
  obtain s p m ps d where c: "c = Commit s p m ps d" by (cases c)
  from a c have f: "findall m = []" by (simp add: findall_empty_iff)
  with a c show "gh_branch c = Inr None" by simp
next
  assume "list_all (\<lambda>(s, m, ps, d). annotation_lines m = []) log"
  then show "list_all (\<lambda>c. gh_branch c = Inr None) (build_commits None log)"
    by (rule build_commits_unannotated) simp
qed

text \<open>
  Claim C1, at concrete inputs: a commit without annotation after a commit with the
  label \<open>a\<close>, a first commit without annotation, and a log of two commits without
  annotation.
\<close>

theorem label_inherited_witness:
  "annotation_lines ''more work'' = [] \<and> \<not> search_stop ''more work''
   \<and> gh_branch
       (Commit ''c1'' (Some (Commit ''c0'' None ''GPC: a'' '''' ''c0 a''))
          ''more work'' '''' ''c1 more'') = Inr (Some ''a'')
   \<and> gh_branch (Commit ''r0'' None ''first'' '''' ''r0 first'') = Inr None
   \<and> map gh_branch
       (build_commits None
          [(''r0'', ''first'', '''', ''r0 first''), (''r1'', ''second'', '''', ''r1 second'')])
     = [Inr None, Inr None]"
proof -
  let ?p = "Commit ''c0'' None ''GPC: a'' '''' ''c0 a''"
  let ?c = "Commit ''c1'' (Some ?p) ''more work'' '''' ''c1 more''"
  let ?r = "Commit ''r0'' None ''first'' '''' ''r0 first''"
  let ?log = "[(''r0'', ''first'', '''', ''r0 first''), (''r1'', ''second'', '''', ''r1 second'')]"
  have h1: "annotation_lines (commit_msg ?c) = [] \<and> \<not> search_stop (commit_msg ?c)"
    by code_simp
  have h2: "annotation_lines (commit_msg ?r) = [] \<and> parent ?r = None"
    by code_simp
  have h3: "list_all (\<lambda>(s, m, ps, d). annotation_lines m = []) ?log"
    by code_simp
  have p: "gh_branch ?p = Inr (Some ''a'')"
    by code_simp
  have b: "build_commits None ?log
           = [?r, Commit ''r1'' (Some ?r) ''second'' '''' ''r1 second'']"
    by code_simp
  from label_inherited [of ?c ?log] h1 h3 p
  have 1: "gh_branch ?c = Inr (Some ''a'')"
    and 3: "list_all (\<lambda>c. gh_branch c = Inr None) (build_commits None ?log)"
    by simp_all
  from label_inherited [of ?r ?log] h2 have 2: "gh_branch ?r = Inr None"
    by blast
  from 3 have 4: "map gh_branch (build_commits None ?log) = [Inr None, Inr None]"
    unfolding b by simp
  from h1 1 2 4 show ?thesis by simp
qed

text \<open>
  Claim C1 as it is stated fails: the message \<open>see GPC: STOP>\<close> has no annotation
  line, the search for the stop marker finds its text in the middle of the line, and
  the commit resolves to no label where its parent resolves to \<open>a\<close>.
\<close>

theorem label_inherited_counterexample:
  "annotation_lines ''see GPC: STOP>'' = []
   \<and> gh_branch (Commit ''c0'' None ''GPC: a'' '''' ''c0 a'') = Inr (Some ''a'')
   \<and> gh_branch
       (Commit ''c1'' (Some (Commit ''c0'' None ''GPC: a'' '''' ''c0 a''))
          ''see GPC: STOP>'' '''' ''c1 see'') = Inr None"
  by code_simp

text \<open>
  Claim C5, as the program has it. A commit that is not marked as not to be pushed
  and whose message has two or more annotation lines with a value ends the
  resolution with the fatal error that names the commit, whatever the values are.
\<close>

theorem several_valued_lines_fatal:
  assumes "\<not> not_to_be_pushed c"
      and "2 \<le> length (filter has_value (annotation_lines (commit_msg c)))"
  shows "gh_branch c = Inl (MultipleLines (sha c))"
proof -
  obtain s p m ps d where c: "c = Commit s p m ps d" by (cases c)
  from assms(2) c have "2 \<le> length (findall m)"
    using valued_lines_found [of m] by simp
  then obtain x y zs where "findall m = x # y # zs"
    by (cases "findall m"; cases "tl (findall m)") auto
  with assms(1) c show ?thesis by simp
qed

text \<open>
  Claim C5, at a concrete input: the message with the lines \<open>GPC: a\<close> and
  \<open>GPC: b\<close>.
\<close>

theorem several_valued_lines_fatal_witness:
  "\<not> not_to_be_pushed (Commit ''c0'' None (''GPC: a'' @ [NL] @ ''GPC: b'') '''' ''c0 two'')
   \<and> filter has_value (annotation_lines (''GPC: a'' @ [NL] @ ''GPC: b'')) = [''GPC: a'', ''GPC: b'']
   \<and> gh_branch (Commit ''c0'' None (''GPC: a'' @ [NL] @ ''GPC: b'') '''' ''c0 two'')
     = Inl (MultipleLines ''c0'')"
proof -
  let ?c = "Commit ''c0'' None (''GPC: a'' @ [NL] @ ''GPC: b'') '''' ''c0 two''"
  have h1: "\<not> not_to_be_pushed ?c"
    by code_simp
  have v: "filter has_value (annotation_lines (''GPC: a'' @ [NL] @ ''GPC: b''))
           = [''GPC: a'', ''GPC: b'']"
    by code_simp
  then have h2: "2 \<le> length (filter has_value (annotation_lines (commit_msg ?c)))"
    by simp
  from several_valued_lines_fatal [OF h1 h2] h1 v show ?thesis
    by simp
qed

text \<open>
  Claim C5 as it is stated fails. A commit with the stop marker and a second
  annotation line resolves to no label, with no error: the marker is looked for
  first. A commit with the lines \<open>GPC:\<close> and \<open>GPC: b\<close> resolves to the label
  \<open>GPC: b\<close>: the white space after the first colon runs over the newline and the
  second line becomes the value of the first.
\<close>

theorem several_lines_counterexample:
  "length (annotation_lines (''GPC: STOP>'' @ [NL] @ ''GPC: b'')) = 2
   \<and> gh_branch (Commit ''c0'' None (''GPC: STOP>'' @ [NL] @ ''GPC: b'') '''' ''c0 stop'')
     = Inr None
   \<and> length (annotation_lines (''GPC:'' @ [NL] @ ''GPC: b'')) = 2
   \<and> gh_branch (Commit ''c0'' None (''GPC:'' @ [NL] @ ''GPC: b'') '''' ''c0 two'')
     = Inr (Some ''GPC: b'')"
  by code_simp

text \<open>
  Claim C10. A commit that is marked as not to be pushed, by its own message or by an
  ancestor, resolves to no label whatever its message holds: lines with a branch are
  not read, and several of them raise no error.
\<close>

theorem stopped_commit_has_no_label:
  "not_to_be_pushed c \<Longrightarrow> gh_branch c = Inr None"
  by (cases c) simp

text \<open>
  Claim C10, at a concrete input: the child of a commit with the marker \<open>STOP>\<close>,
  with two lines that name a branch.
\<close>

theorem stopped_commit_has_no_label_witness:
  "not_to_be_pushed
     (Commit ''c1'' (Some (Commit ''c0'' None ''GPC: STOP>'' '''' ''c0 stop''))
        (''GPC: a'' @ [NL] @ ''GPC: b'') '''' ''c1 two'')
   \<and> findall (''GPC: a'' @ [NL] @ ''GPC: b'') = [''a'', ''b'']
   \<and> gh_branch
       (Commit ''c1'' (Some (Commit ''c0'' None ''GPC: STOP>'' '''' ''c0 stop''))
          (''GPC: a'' @ [NL] @ ''GPC: b'') '''' ''c1 two'') = Inr None"
proof -
  have h: "not_to_be_pushed
     (Commit ''c1'' (Some (Commit ''c0'' None ''GPC: STOP>'' '''' ''c0 stop''))
        (''GPC: a'' @ [NL] @ ''GPC: b'') '''' ''c1 two'')"
    by code_simp
  have f: "findall (''GPC: a'' @ [NL] @ ''GPC: b'') = [''a'', ''b'']"
    by code_simp
  from stopped_commit_has_no_label [OF h] h f show ?thesis
    by blast
qed

text \<open>
  Claim C4. A commit whose message is the line \<open>GPC: STOP\<close>, followed by a commit
  with the line \<open>GPC: feat\<close>: the pattern asks for \<open>STOP>\<close>, so the first commit is
  not marked, its label is \<open>STOP\<close>, and both commits are pushed.
  (By \<open>search_stop_gt\<close> no message without the character \<open>>\<close> is ever marked.)
\<close>

theorem stop_marker_not_recognised:
  "\<not> not_to_be_pushed (Commit ''c0'' None ''GPC: STOP'' '''' ''c0 stop'')
   \<and> gh_branch (Commit ''c0'' None ''GPC: STOP'' '''' ''c0 stop'') = Inr (Some ''STOP'')
   \<and> gh_branch
       (Commit ''c1'' (Some (Commit ''c0'' None ''GPC: STOP'' '''' ''c0 stop''))
          ''GPC: feat'' '''' ''c1 feat'') = Inr (Some ''feat'')
   \<and> push_branches [] ''origin/main''
       [(''c0'', ''GPC: STOP'', '''', ''c0 stop''), (''c1'', ''GPC: feat'', '''', ''c1 feat'')]
     = Inr [Push ''origin'' ''c0'' ''STOP'', Push ''origin'' ''c1'' ''feat'']"
  by code_simp

section \<open>Validation of the chain\<close>

text \<open>
  Claim C2, as the program has it. When no commit is taken for a merge commit and
  every label resolves, the validation ends with the AABA error if and only if some
  label that is not empty appears in more than one maximal run of equal labels;
  this is the case exactly when such a label appears, then a different label, then
  the first one again. The error names exactly those labels.
\<close>

theorem aaba_error_iff:
  assumes "\<forall>c \<in> set commits. \<not> is_merge_commit c"
      and "map gh_branch commits = map Inr labels"
  shows "((\<exists>bs. validate_branch_commits commits = Inl (AABA bs))
            \<longleftrightarrow> (\<exists>b. b \<noteq> [] \<and> 1 < count_list (remdups_adj labels) (Some b)))
         \<and> ((\<exists>bs. validate_branch_commits commits = Inl (AABA bs))
            \<longleftrightarrow> (\<exists>b i j k. b \<noteq> [] \<and> i < j \<and> j < k \<and> k < length labels
                   \<and> labels ! i = Some b \<and> labels ! j \<noteq> Some b \<and> labels ! k = Some b))
         \<and> (\<forall>bs. validate_branch_commits commits = Inl (AABA bs)
              \<longrightarrow> set bs = {b. b \<noteq> [] \<and> 1 < count_list (remdups_adj labels) (Some b)})"
proof -
  from validate_result [OF assms] obtain bs where
    bs1: "set bs = {b. b \<noteq> [] \<and> 1 < count_list (remdups_adj labels) (Some b)}" and
    bs2: "validate_branch_commits commits = (if bs \<noteq> [] then Inl (AABA bs) else Inr ())"
    by blast
  have runs: "(\<exists>bs'. validate_branch_commits commits = Inl (AABA bs'))
            \<longleftrightarrow> (\<exists>b. b \<noteq> [] \<and> 1 < count_list (remdups_adj labels) (Some b))"
  proof
    assume "\<exists>bs'. validate_branch_commits commits = Inl (AABA bs')"
    then obtain bs' where "validate_branch_commits commits = Inl (AABA bs')" ..
    with bs2 have "bs \<noteq> []" by (cases "bs = []") simp_all
    then obtain b where "b \<in> set bs" by (cases bs) auto
    with bs1 have "b \<noteq> [] \<and> 1 < count_list (remdups_adj labels) (Some b)" by simp
    then show "\<exists>b. b \<noteq> [] \<and> 1 < count_list (remdups_adj labels) (Some b)" ..
  next
    assume "\<exists>b. b \<noteq> [] \<and> 1 < count_list (remdups_adj labels) (Some b)"
    then obtain b where "b \<noteq> [] \<and> 1 < count_list (remdups_adj labels) (Some b)" ..
    with bs1 have "b \<in> set bs" by simp
    then have "bs \<noteq> []" by (cases bs) auto
    with bs2 have "validate_branch_commits commits = Inl (AABA bs)" by simp
    then show "\<exists>bs'. validate_branch_commits commits = Inl (AABA bs')" ..
  qed
  have idx: "(\<exists>b. b \<noteq> [] \<and> 1 < count_list (remdups_adj labels) (Some b))
      \<longleftrightarrow> (\<exists>b i j k. b \<noteq> [] \<and> i < j \<and> j < k \<and> k < length labels
                   \<and> labels ! i = Some b \<and> labels ! j \<noteq> Some b \<and> labels ! k = Some b)"
  proof
    assume "\<exists>b. b \<noteq> [] \<and> 1 < count_list (remdups_adj labels) (Some b)"
    then obtain b where b: "b \<noteq> []" "1 < count_list (remdups_adj labels) (Some b)" by blast
    from runs_reappear [OF b(2)] obtain i j k where
      "i < j \<and> j < k \<and> k < length labels
         \<and> labels ! i = Some b \<and> labels ! j \<noteq> Some b \<and> labels ! k = Some b"
      by blast
    with b(1) have "b \<noteq> [] \<and> i < j \<and> j < k \<and> k < length labels
         \<and> labels ! i = Some b \<and> labels ! j \<noteq> Some b \<and> labels ! k = Some b"
      by simp
    then show "\<exists>b i j k. b \<noteq> [] \<and> i < j \<and> j < k \<and> k < length labels
                   \<and> labels ! i = Some b \<and> labels ! j \<noteq> Some b \<and> labels ! k = Some b"
      by (intro exI)
  next
    assume "\<exists>b i j k. b \<noteq> [] \<and> i < j \<and> j < k \<and> k < length labels
                   \<and> labels ! i = Some b \<and> labels ! j \<noteq> Some b \<and> labels ! k = Some b"
    then obtain b i j k where h: "b \<noteq> []" "i < j" "j < k" "k < length labels"
        "labels ! i = Some b" "labels ! j \<noteq> Some b" "labels ! k = Some b"
      by blast
    from reappears_runs [OF h(2-7)] h(1)
    have "b \<noteq> [] \<and> 1 < count_list (remdups_adj labels) (Some b)" by simp
    then show "\<exists>b. b \<noteq> [] \<and> 1 < count_list (remdups_adj labels) (Some b)" ..
  qed
  have names: "\<forall>bs'. validate_branch_commits commits = Inl (AABA bs')
              \<longrightarrow> set bs' = {b. b \<noteq> [] \<and> 1 < count_list (remdups_adj labels) (Some b)}"
  proof (intro allI impI)
    fix bs'
    assume "validate_branch_commits commits = Inl (AABA bs')"
    with bs2 have "bs' = bs" by (cases "bs = []") simp_all
    with bs1 show "set bs' = {b. b \<noteq> [] \<and> 1 < count_list (remdups_adj labels) (Some b)}"
      by simp
  qed
  from runs idx have idx2: "(\<exists>bs. validate_branch_commits commits = Inl (AABA bs))
            \<longleftrightarrow> (\<exists>b i j k. b \<noteq> [] \<and> i < j \<and> j < k \<and> k < length labels
                   \<and> labels ! i = Some b \<and> labels ! j \<noteq> Some b \<and> labels ! k = Some b)"
    by (rule trans)
  show ?thesis
    by (intro conjI) (fact runs, fact idx2, fact names)
qed

text \<open>
  Claim C2, at a concrete input: three commits with the labels \<open>a\<close>, \<open>b\<close>,
  \<open>a\<close>.
\<close>

theorem aaba_error_iff_witness:
  "\<not> is_merge_commit (Commit ''c0'' None ''GPC: a'' '''' ''c0 a'')
   \<and> \<not> is_merge_commit (Commit ''c1'' None ''GPC: b'' '''' ''c1 b'')
   \<and> \<not> is_merge_commit (Commit ''c2'' None ''GPC: a'' '''' ''c2 a'')
   \<and> map gh_branch
       [Commit ''c0'' None ''GPC: a'' '''' ''c0 a'',
        Commit ''c1'' None ''GPC: b'' '''' ''c1 b'',
        Commit ''c2'' None ''GPC: a'' '''' ''c2 a'']
     = [Inr (Some ''a''), Inr (Some ''b''), Inr (Some ''a'')]
   \<and> (\<exists>bs. validate_branch_commits
         [Commit ''c0'' None ''GPC: a'' '''' ''c0 a'',
          Commit ''c1'' None ''GPC: b'' '''' ''c1 b'',
          Commit ''c2'' None ''GPC: a'' '''' ''c2 a''] = Inl (AABA bs) \<and> ''a'' \<in> set bs)"
proof -
  let ?cs = "[Commit ''c0'' None ''GPC: a'' '''' ''c0 a'',
              Commit ''c1'' None ''GPC: b'' '''' ''c1 b'',
              Commit ''c2'' None ''GPC: a'' '''' ''c2 a'']"
  let ?ls = "[Some ''a'', Some ''b'', Some ''a'']"
  have m: "\<not> is_merge_commit (Commit ''c0'' None ''GPC: a'' '''' ''c0 a'')
           \<and> \<not> is_merge_commit (Commit ''c1'' None ''GPC: b'' '''' ''c1 b'')
           \<and> \<not> is_merge_commit (Commit ''c2'' None ''GPC: a'' '''' ''c2 a'')"
    by code_simp
  then have h1: "\<forall>c \<in> set ?cs. \<not> is_merge_commit c"
    by simp
  have l: "map gh_branch ?cs = [Inr (Some ''a''), Inr (Some ''b''), Inr (Some ''a'')]"
    by code_simp
  then have h2: "map gh_branch ?cs = map Inr ?ls"
    by simp
  have ex: "''a'' \<noteq> [] \<and> 1 < count_list (remdups_adj ?ls) (Some ''a'')"
    by code_simp
  note t = aaba_error_iff [OF h1 h2]
  note runs = t [THEN conjunct1]
  from runs ex obtain bs where bs: "validate_branch_commits ?cs = Inl (AABA bs)"
    by blast
  note names = t [THEN conjunct2, THEN conjunct2, rule_format]
  from names [OF bs]
  have sb: "set bs = {b. b \<noteq> [] \<and> 1 < count_list (remdups_adj ?ls) (Some b)}" .
  from ex have "''a'' \<in> {b. b \<noteq> [] \<and> 1 < count_list (remdups_adj ?ls) (Some b)}"
    by (intro CollectI)
  then have "''a'' \<in> set bs"
    unfolding sb .
  with bs have "validate_branch_commits ?cs = Inl (AABA bs) \<and> ''a'' \<in> set bs"
    by (rule conjI)
  then have e: "\<exists>bs. validate_branch_commits ?cs = Inl (AABA bs) \<and> ''a'' \<in> set bs"
    by (rule exI)
  show ?thesis
    by (intro conjI) (rule m [THEN conjunct1], rule m [THEN conjunct2, THEN conjunct1],
        rule m [THEN conjunct2, THEN conjunct2], rule l, rule e)
qed

text \<open>
  Claim C2 as it is stated fails. The labels \<open>""\<close>, \<open>a\<close>, \<open>""\<close> (from the
  messages \<open>GPC:\<close>, \<open>GPC: a\<close>, \<open>GPC:\<close>): the empty label is not \<open>None\<close> and
  stands in two runs, but it counts as false and the validation passes. The labels
  \<open>a\<close>, \<open>b\<close>, \<open>a\<close> with a commit that is taken for a merge commit: the merge
  check comes first and the error is the one for merge commits.
\<close>

theorem aaba_error_counterexample:
  "map gh_branch
     [Commit ''c0'' None ''GPC:'' '''' ''c0 empty'',
      Commit ''c1'' (Some (Commit ''c0'' None ''GPC:'' '''' ''c0 empty'')) ''GPC: a'' '''' ''c1 a'',
      Commit ''c2''
        (Some (Commit ''c1'' (Some (Commit ''c0'' None ''GPC:'' '''' ''c0 empty'')) ''GPC: a'' ''''
           ''c1 a''))
        ''GPC:'' '''' ''c2 empty'']
     = [Inr (Some ''''), Inr (Some ''a''), Inr (Some '''')]
   \<and> count_list (remdups_adj [Some '''', Some ''a'', Some '''']) (Some '''') = 2
   \<and> validate_branch_commits
       [Commit ''c0'' None ''GPC:'' '''' ''c0 empty'',
        Commit ''c1'' (Some (Commit ''c0'' None ''GPC:'' '''' ''c0 empty'')) ''GPC: a'' '''' ''c1 a'',
        Commit ''c2''
          (Some (Commit ''c1'' (Some (Commit ''c0'' None ''GPC:'' '''' ''c0 empty'')) ''GPC: a'' ''''
             ''c1 a''))
          ''GPC:'' '''' ''c2 empty'']
     = Inr ()
   \<and> is_merge_commit (Commit ''m1'' None ''GPC: b'' (''1f2e'' @ [NL] @ ''3d4c'') ''m1 b'')
   \<and> map gh_branch
       [Commit ''m0'' None ''GPC: a'' '''' ''m0 a'',
        Commit ''m1'' None ''GPC: b'' (''1f2e'' @ [NL] @ ''3d4c'') ''m1 b'',
        Commit ''m2'' None ''GPC: a'' '''' ''m2 a'']
     = [Inr (Some ''a''), Inr (Some ''b''), Inr (Some ''a'')]
   \<and> validate_branch_commits
       [Commit ''m0'' None ''GPC: a'' '''' ''m0 a'',
        Commit ''m1'' None ''GPC: b'' (''1f2e'' @ [NL] @ ''3d4c'') ''m1 b'',
        Commit ''m2'' None ''GPC: a'' '''' ''m2 a'']
     = Inl (MergeCommits [''m1 b''])"
  by code_simp

text \<open>
  Claim C3. A commit with two parents: \<open>git\<close> prints both hashes on one line, the
  line count is one, the commit is not taken for a merge commit and the validation
  passes.
  (For every list of parents \<open>git_parents_one_line\<close> shows the same.)
\<close>

theorem merge_commit_not_detected:
  "\<not> is_merge_commit
       (Commit ''c0'' None ''GPC: a'' (git (git_format_parents [''1f2e'', ''3d4c''])) ''c0 merge'')
   \<and> validate_branch_commits
       [Commit ''c0'' None ''GPC: a'' (git (git_format_parents [''1f2e'', ''3d4c''])) ''c0 merge'']
     = Inr ()"
  by code_simp

text \<open>
  Claim C6. Three commits with the labels \<open>a\<close>, none, \<open>c\<close>: the commit in the middle
  has no label and stands between two labelled runs, and the validation passes. The
  count of the labels has used up the groups before the check for a missing label
  reads them.
  (By \<open>validate_no_unlabelled_error\<close> the validation never ends with that error.)
\<close>

theorem unlabelled_run_in_the_middle_passes:
  "map gh_branch
     [Commit ''c0'' None ''GPC: a'' '''' ''c0 a'',
      Commit ''c1'' None ''no label'' '''' ''c1 none'',
      Commit ''c2'' None ''GPC: c'' '''' ''c2 c'']
     = [Inr (Some ''a''), Inr None, Inr (Some ''c'')]
   \<and> validate_branch_commits
       [Commit ''c0'' None ''GPC: a'' '''' ''c0 a'',
        Commit ''c1'' None ''no label'' '''' ''c1 none'',
        Commit ''c2'' None ''GPC: c'' '''' ''c2 c'']
     = Inr ()"
  by code_simp

section \<open>Groups, bases and pull requests\<close>

text \<open>
  Claim C7. The commits \<open>A\<close> (no label), \<open>B\<close> and \<open>C\<close> (\<open>feat-x\<close>), \<open>D\<close> (\<open>feat-y\<close>),
  upstream \<open>origin/main\<close>: the commits pass the validation, the group of \<open>A\<close> has the
  label \<open>None\<close>, and both commands end with \<open>TypeError\<close>: nothing is pushed and no
  pull request is created, for the labelled groups either.
  (By \<open>add_prefix_None\<close> every group without a label ends the command so.)
\<close>

theorem unlabelled_commit_ends_upload:
  "(\<exists>commits. branch_commits ''origin/main''
       [(''A'', ''first'', '''', ''A first''), (''B'', ''GPC: feat-x'', '''', ''B x''),
        (''C'', ''more'', '''', ''C more''), (''D'', ''GPC: feat-y'', '''', ''D y'')] = Inr commits
      \<and> map gh_branch commits
          = [Inr None, Inr (Some ''feat-x''), Inr (Some ''feat-x''), Inr (Some ''feat-y'')])
   \<and> push_branches ''pre-'' ''origin/main''
       [(''A'', ''first'', '''', ''A first''), (''B'', ''GPC: feat-x'', '''', ''B x''),
        (''C'', ''more'', '''', ''C more''), (''D'', ''GPC: feat-y'', '''', ''D y'')]
     = Inl TypeError
   \<and> create_and_update_prs (\<lambda>branch. []) ''pre-'' ''origin/main''
       [(''A'', ''first'', '''', ''A first''), (''B'', ''GPC: feat-x'', '''', ''B x''),
        (''C'', ''more'', '''', ''C more''), (''D'', ''GPC: feat-y'', '''', ''D y'')]
     = ([], Some TypeError)"
proof -
  have g: "grouped_commits ''pre-'' ''origin/main''
       [(''A'', ''first'', '''', ''A first''), (''B'', ''GPC: feat-x'', '''', ''B x''),
        (''C'', ''more'', '''', ''C more''), (''D'', ''GPC: feat-y'', '''', ''D y'')]
     = Inl TypeError"
    by code_simp
  have b: "branch_commits ''origin/main''
       [(''A'', ''first'', '''', ''A first''), (''B'', ''GPC: feat-x'', '''', ''B x''),
        (''C'', ''more'', '''', ''C more''), (''D'', ''GPC: feat-y'', '''', ''D y'')]
     = Inr (build_commits None
       [(''A'', ''first'', '''', ''A first''), (''B'', ''GPC: feat-x'', '''', ''B x''),
        (''C'', ''more'', '''', ''C more''), (''D'', ''GPC: feat-y'', '''', ''D y'')])"
    by code_simp
  have l: "map gh_branch (build_commits None
       [(''A'', ''first'', '''', ''A first''), (''B'', ''GPC: feat-x'', '''', ''B x''),
        (''C'', ''more'', '''', ''C more''), (''D'', ''GPC: feat-y'', '''', ''D y'')])
     = [Inr None, Inr (Some ''feat-x''), Inr (Some ''feat-x''), Inr (Some ''feat-y'')]"
    by code_simp
  from g b l show ?thesis
    by (simp add: push_branches_def create_and_update_prs_def)
qed

text \<open>
  Claim C8. The branch tracks the branch \<open>release/1.0\<close> of the remote \<open>origin\<close>: the
  base of the first group is \<open>1.0\<close>, the part after the last slash, where the name
  of the upstream branch is \<open>release/1.0\<close>.
  (The bases of the later groups are the names of the groups before them, by
  \<open>base_of_later\<close>, and the first base is the upstream branch when its name has no
  slash, by \<open>base_of_first\<close>.)
\<close>

theorem first_base_loses_path_of_upstream:
  "base_of (upstream_short ''origin'' ''release/1.0'') [] 0 = ''1.0''
   \<and> create_and_update_prs (\<lambda>branch. []) [] (upstream_short ''origin'' ''release/1.0'')
       [(''c0'', ''GPC: feat-x'', '''', ''c0 x''), (''c1'', ''GPC: feat-y'', '''', ''c1 y'')]
     = ([Create ''feat-x'' ''1.0'', Create ''feat-y'' ''feat-x''], None)"
  by code_simp

text \<open>
  Claim C9, as the program has it. The loop takes the groups in order and ends at the
  first fatal error. Every group before that point gets exactly one decision: a new
  pull request when no open pull request has the group's branch as its head; a new
  base when exactly one has it and its base is not the computed base; nothing when
  exactly one has it and its base is the computed base. When the loop ends with an
  error, the group it stopped at has more than one such pull request and the error
  lists them; the groups after it get no decision. When it ends without an error,
  every group has its decision.
\<close>

theorem pr_decisions:
  assumes "grouped_commits pre upstream_branch log = Inr grouped"
      and "create_and_update_prs get_pulls pre upstream_branch log = (ds, e)"
  shows "length ds \<le> length grouped
       \<and> (\<forall>i < length ds.
             (targeting get_pulls (fst (grouped ! i)) = []
                \<and> ds ! i = Create (fst (grouped ! i)) (base_of upstream_branch grouped i))
           \<or> (\<exists>pr. targeting get_pulls (fst (grouped ! i)) = [pr]
                \<and> base_ref pr \<noteq> base_of upstream_branch grouped i
                \<and> ds ! i = UpdateBase pr (base_of upstream_branch grouped i))
           \<or> (\<exists>pr. targeting get_pulls (fst (grouped ! i)) = [pr]
                \<and> base_ref pr = base_of upstream_branch grouped i
                \<and> ds ! i = NoOp))
       \<and> (e = None \<longrightarrow> length ds = length grouped)
       \<and> (\<forall>err. e = Some err \<longrightarrow>
             length ds < length grouped
             \<and> 1 < length (targeting get_pulls (fst (grouped ! length ds)))
             \<and> err = MultiplePRs (fst (grouped ! length ds))
                       (map url (targeting get_pulls (fst (grouped ! length ds)))))"
proof -
  from assms have pf: "plan_from get_pulls upstream_branch grouped [0 ..< length grouped] = (ds, e)"
    by (simp add: create_and_update_prs_def)
  note st = plan_from_steps [OF pf]
  from st [THEN conjunct1] have 1: "length ds \<le> length grouped" by simp
  have 2: "\<forall>i < length ds.
             (targeting get_pulls (fst (grouped ! i)) = []
                \<and> ds ! i = Create (fst (grouped ! i)) (base_of upstream_branch grouped i))
           \<or> (\<exists>pr. targeting get_pulls (fst (grouped ! i)) = [pr]
                \<and> base_ref pr \<noteq> base_of upstream_branch grouped i
                \<and> ds ! i = UpdateBase pr (base_of upstream_branch grouped i))
           \<or> (\<exists>pr. targeting get_pulls (fst (grouped ! i)) = [pr]
                \<and> base_ref pr = base_of upstream_branch grouped i
                \<and> ds ! i = NoOp)"
  proof (intro allI impI)
    fix i
    assume i: "i < length ds"
    with 1 have ig: "i < length grouped" by simp
    note step = st [THEN conjunct2, THEN conjunct1, rule_format]
    from step [OF i] have "plan_pr (get_pulls (fst (grouped ! ([0 ..< length grouped] ! i))))
               (fst (grouped ! ([0 ..< length grouped] ! i)))
               (base_of upstream_branch grouped ([0 ..< length grouped] ! i)) = Inr (ds ! i)" .
    moreover from ig have "[0 ..< length grouped] ! i = i"
      by simp
    ultimately have "plan_pr (get_pulls (fst (grouped ! i))) (fst (grouped ! i))
               (base_of upstream_branch grouped i) = Inr (ds ! i)"
      by simp
    then show "(targeting get_pulls (fst (grouped ! i)) = []
                \<and> ds ! i = Create (fst (grouped ! i)) (base_of upstream_branch grouped i))
           \<or> (\<exists>pr. targeting get_pulls (fst (grouped ! i)) = [pr]
                \<and> base_ref pr \<noteq> base_of upstream_branch grouped i
                \<and> ds ! i = UpdateBase pr (base_of upstream_branch grouped i))
           \<or> (\<exists>pr. targeting get_pulls (fst (grouped ! i)) = [pr]
                \<and> base_ref pr = base_of upstream_branch grouped i
                \<and> ds ! i = NoOp)"
      by (rule plan_pr_Inr)
  qed
  from st [THEN conjunct2, THEN conjunct2, THEN conjunct1]
  have 3: "e = None \<longrightarrow> length ds = length grouped" by simp
  have 4: "\<forall>err. e = Some err \<longrightarrow>
             length ds < length grouped
             \<and> 1 < length (targeting get_pulls (fst (grouped ! length ds)))
             \<and> err = MultiplePRs (fst (grouped ! length ds))
                       (map url (targeting get_pulls (fst (grouped ! length ds))))"
  proof (intro allI impI)
    fix err
    assume "e = Some err"
    note fatal_step = st [THEN conjunct2, THEN conjunct2, THEN conjunct2, rule_format]
    note both = fatal_step [OF \<open>e = Some err\<close>]
    note lt = both [THEN conjunct1] and step = both [THEN conjunct2]
    from lt have idx: "[0 ..< length grouped] ! length ds = length ds"
      by simp
    from step have "plan_pr (get_pulls (fst (grouped ! length ds))) (fst (grouped ! length ds))
                 (base_of upstream_branch grouped (length ds)) = Inl err"
      unfolding idx .
    from plan_pr_Inl [OF this] lt
    show "length ds < length grouped
             \<and> 1 < length (targeting get_pulls (fst (grouped ! length ds)))
             \<and> err = MultiplePRs (fst (grouped ! length ds))
                       (map url (targeting get_pulls (fst (grouped ! length ds))))"
      by simp
  qed
  from 1 2 3 4 show ?thesis by (intro conjI)
qed

text \<open>
  Claim C9, at concrete inputs: three groups whose decisions are a new base, a new
  pull request and nothing; and the same groups where the second has two open pull
  requests.
\<close>

theorem pr_decisions_witness:
  "grouped_commits [] ''origin/main''
       [(''c0'', ''GPC: feat-x'', '''', ''c0 x''), (''c1'', ''GPC: feat-y'', '''', ''c1 y''),
        (''c2'', ''GPC: feat-z'', '''', ''c2 z'')]
     = Inr [(''feat-x'', [Commit ''c0'' None ''GPC: feat-x'' '''' ''c0 x'']),
            (''feat-y'',
             [Commit ''c1'' (Some (Commit ''c0'' None ''GPC: feat-x'' '''' ''c0 x''))
                ''GPC: feat-y'' '''' ''c1 y'']),
            (''feat-z'',
             [Commit ''c2''
                (Some (Commit ''c1'' (Some (Commit ''c0'' None ''GPC: feat-x'' '''' ''c0 x''))
                   ''GPC: feat-y'' '''' ''c1 y''))
                ''GPC: feat-z'' '''' ''c2 z''])]
   \<and> create_and_update_prs
       (\<lambda>branch. if branch = ''feat-x''
          then [\<lparr>number = 7, head_ref = ''feat-x'', base_ref = ''develop'', url = ''u7''\<rparr>]
          else if branch = ''feat-z''
          then [\<lparr>number = 9, head_ref = ''feat-z'', base_ref = ''feat-y'', url = ''u9''\<rparr>]
          else [])
       [] ''origin/main''
       [(''c0'', ''GPC: feat-x'', '''', ''c0 x''), (''c1'', ''GPC: feat-y'', '''', ''c1 y''),
        (''c2'', ''GPC: feat-z'', '''', ''c2 z'')]
     = ([UpdateBase \<lparr>number = 7, head_ref = ''feat-x'', base_ref = ''develop'', url = ''u7''\<rparr>
           ''main'',
         Create ''feat-y'' ''feat-x'',
         NoOp], None)
   \<and> length
       [UpdateBase \<lparr>number = 7, head_ref = ''feat-x'', base_ref = ''develop'', url = ''u7''\<rparr>
          ''main'',
        Create ''feat-y'' ''feat-x'',
        NoOp] = (3::nat)
   \<and> create_and_update_prs
       (\<lambda>branch. if branch = ''feat-y''
          then [\<lparr>number = 1, head_ref = ''feat-y'', base_ref = ''main'', url = ''u1''\<rparr>,
                \<lparr>number = 2, head_ref = ''feat-y'', base_ref = ''main'', url = ''u2''\<rparr>]
          else [])
       [] ''origin/main''
       [(''c0'', ''GPC: feat-x'', '''', ''c0 x''), (''c1'', ''GPC: feat-y'', '''', ''c1 y''),
        (''c2'', ''GPC: feat-z'', '''', ''c2 z'')]
     = ([Create ''feat-x'' ''main''], Some (MultiplePRs ''feat-y'' [''u1'', ''u2'']))
   \<and> 1 < length
       (targeting
          (\<lambda>branch. if branch = ''feat-y''
             then [\<lparr>number = 1, head_ref = ''feat-y'', base_ref = ''main'', url = ''u1''\<rparr>,
                   \<lparr>number = 2, head_ref = ''feat-y'', base_ref = ''main'', url = ''u2''\<rparr>]
             else [])
          ''feat-y'')"
proof -
  let ?log = "[(''c0'', ''GPC: feat-x'', '''', ''c0 x''), (''c1'', ''GPC: feat-y'', '''', ''c1 y''),
               (''c2'', ''GPC: feat-z'', '''', ''c2 z'')]"
  let ?c0 = "Commit ''c0'' None ''GPC: feat-x'' '''' ''c0 x''"
  let ?c1 = "Commit ''c1'' (Some ?c0) ''GPC: feat-y'' '''' ''c1 y''"
  let ?c2 = "Commit ''c2'' (Some ?c1) ''GPC: feat-z'' '''' ''c2 z''"
  let ?grouped = "[(''feat-x'', [?c0]), (''feat-y'', [?c1]), (''feat-z'', [?c2])]"
  let ?gp = "\<lambda>branch. if branch = ''feat-x''
          then [\<lparr>number = 7, head_ref = ''feat-x'', base_ref = ''develop'', url = ''u7''\<rparr>]
          else if branch = ''feat-z''
          then [\<lparr>number = 9, head_ref = ''feat-z'', base_ref = ''feat-y'', url = ''u9''\<rparr>]
          else []"
  let ?ds = "[UpdateBase \<lparr>number = 7, head_ref = ''feat-x'', base_ref = ''develop'', url = ''u7''\<rparr>
                ''main'',
              Create ''feat-y'' ''feat-x'',
              NoOp]"
  have h1: "grouped_commits [] ''origin/main'' ?log = Inr ?grouped"
    by code_simp
  have h2: "create_and_update_prs ?gp [] ''origin/main'' ?log = (?ds, None)"
    by code_simp
  note t = pr_decisions [OF h1 h2]
  from t [THEN conjunct2, THEN conjunct2, THEN conjunct1]
  have "length ?ds = length ?grouped"
    by (rule mp) (rule refl)
  then have 3: "length ?ds = (3::nat)"
    by simp
  let ?gp' = "\<lambda>branch. if branch = ''feat-y''
          then [\<lparr>number = 1, head_ref = ''feat-y'', base_ref = ''main'', url = ''u1''\<rparr>,
                \<lparr>number = 2, head_ref = ''feat-y'', base_ref = ''main'', url = ''u2''\<rparr>]
          else []"
  have h3: "create_and_update_prs ?gp' [] ''origin/main'' ?log
            = ([Create ''feat-x'' ''main''], Some (MultiplePRs ''feat-y'' [''u1'', ''u2'']))"
    by code_simp
  note t' = pr_decisions [OF h1 h3]
  note fatal = t' [THEN conjunct2, THEN conjunct2, THEN conjunct2, rule_format, OF refl]
  from fatal [THEN conjunct2, THEN conjunct1]
  have 4: "1 < length (targeting ?gp' ''feat-y'')"
    by simp
  show ?thesis
    by (intro conjI) (rule h1, rule h2, rule 3, rule h3, rule 4)
qed

text \<open>
  Claim C9 as it is stated fails for a group after the fatal error: \<open>feat-x\<close> has
  two open pull requests, \<open>feat-y\<close> has none, and the run ends at \<open>feat-x\<close>
  with no pull request created for \<open>feat-y\<close>.
\<close>

theorem pr_decisions_counterexample:
  "targeting
     (\<lambda>branch. if branch = ''feat-x''
        then [\<lparr>number = 1, head_ref = ''feat-x'', base_ref = ''main'', url = ''u1''\<rparr>,
              \<lparr>number = 2, head_ref = ''feat-x'', base_ref = ''main'', url = ''u2''\<rparr>]
        else [])
     ''feat-y'' = []
   \<and> grouped_commits [] ''origin/main''
       [(''c0'', ''GPC: feat-x'', '''', ''c0 x''), (''c1'', ''GPC: feat-y'', '''', ''c1 y'')]
     = Inr [(''feat-x'', [Commit ''c0'' None ''GPC: feat-x'' '''' ''c0 x'']),
            (''feat-y'',
             [Commit ''c1'' (Some (Commit ''c0'' None ''GPC: feat-x'' '''' ''c0 x''))
                ''GPC: feat-y'' '''' ''c1 y''])]
   \<and> create_and_update_prs
       (\<lambda>branch. if branch = ''feat-x''
          then [\<lparr>number = 1, head_ref = ''feat-x'', base_ref = ''main'', url = ''u1''\<rparr>,
                \<lparr>number = 2, head_ref = ''feat-x'', base_ref = ''main'', url = ''u2''\<rparr>]
          else [])
       [] ''origin/main''
       [(''c0'', ''GPC: feat-x'', '''', ''c0 x''), (''c1'', ''GPC: feat-y'', '''', ''c1 y'')]
     = ([], Some (MultiplePRs ''feat-x'' [''u1'', ''u2'']))"
  by code_simp

end
